theory Spec2Isabelle
  imports Complex_Main "HOL-Library.Multiset" "HOL-Library.Sublist"
begin

section \<open>Data model\<close>

text \<open>
  A comment is the dictionary built by \<open>get_comments\<close>: five keys copied from the API
  item, and three keys (\<open>polarity\<close>, \<open>subjectivity\<close>, \<open>sentiment\<close>) that exist only
  after \<open>analyze_sentiment\<close> has stored them. A key that a dictionary may lack is an
  \<open>option\<close> field: \<open>None\<close> is the absent key. \<open>get_comments\<close> always stores \<open>text\<close>,
  but \<open>analyze_sentiment\<close> and \<open>extract_common_words\<close> are public methods that read
  \<open>comment['text']\<close> of whatever dictionaries they are handed, so \<open>text\<close> is optional too.
  Python floats are read as the real numbers they denote. The key \<open>text\<close> is the
  field \<open>comment_text\<close> (\<open>text\<close> is a keyword of the theory language).
\<close>

record comment =
  author :: string
  comment_text :: "string option"
  published_at :: string
  like_count :: int
  reply_count :: int
  polarity :: "real option"
  subjectivity :: "real option"
  sentiment :: "string option"

text \<open>
  One item of a \<open>commentThreads().list\<close> response, with the fields the code reads:
  \<open>item['snippet']['topLevelComment']['snippet'][...]\<close> and
  \<open>item['snippet']['totalReplyCount']\<close>.
\<close>

record thread_item =
  authorDisplayName :: string
  textDisplay :: string
  publishedAt :: string
  likeCount :: int
  totalReplyCount :: int

record thread_page =
  items :: "thread_item list"
  nextPageToken :: "string option"

datatype http_error = HttpError

datatype py_error = KeyError | OverflowError

text \<open>The remote calls a run issues, in order.\<close>

datatype request =
  VideosList string
  | CommentThreadsList string "string option" int

text \<open>
  The remote capability \<open>youtube.commentThreads().list(part='snippet', videoId, maxResults,
  pageToken, textFormat='plainText').execute()\<close>: it answers with a page or raises
  \<open>HttpError\<close>.
\<close>

type_synonym threads_api = "string \<Rightarrow> string option \<Rightarrow> int \<Rightarrow> http_error + thread_page"

section \<open>Comment Paginator\<close>

definition comment_of_item :: "thread_item \<Rightarrow> comment" where
  "comment_of_item item =
     \<lparr>author = authorDisplayName item,
      comment_text = Some (textDisplay item),
      published_at = publishedAt item,
      like_count = likeCount item,
      reply_count = totalReplyCount item,
      polarity = None, subjectivity = None, sentiment = None\<rparr>"

text \<open>The inner \<open>for item in response['items']\<close> loop: append, then count.\<close>

fun append_items :: "thread_item list \<Rightarrow> comment list \<times> int \<Rightarrow> comment list \<times> int" where
  "append_items [] (comments, comment_count) = (comments, comment_count)"
| "append_items (item # rest) (comments, comment_count) =
     append_items rest (comments @ [comment_of_item item], comment_count + 1)"

text \<open>Python's \<open>not next_page_token\<close>: true of \<open>None\<close> and of the empty string.\<close>

definition falsy_token :: "string option \<Rightarrow> bool" where
  "falsy_token tok = (case tok of None \<Rightarrow> True | Some t \<Rightarrow> t = [])"

record paginator_state =
  comments :: "comment list"
  next_page_token :: "string option"
  comment_count :: int
  requests :: "request list"

text \<open>
  The \<open>while comment_count < max_comments\<close> loop. It returns the accumulated comments,
  or the \<open>HttpError\<close> a request raised, together with the requests issued. Nothing bounds
  the number of pages a remote may serve, so the loop is a partial function: \<open>None\<close> is
  a run that never leaves the loop.
\<close>

partial_function (option) get_comments_loop ::
  "threads_api \<Rightarrow> string \<Rightarrow> int \<Rightarrow> paginator_state \<Rightarrow>
     ((http_error + comment list) \<times> request list) option" where
  "get_comments_loop api video_id max_comments st =
     (if comment_count st < max_comments then
        (let max_results = min 100 (max_comments - comment_count st);
             reqs = requests st @ [CommentThreadsList video_id (next_page_token st) max_results]
         in case api video_id (next_page_token st) max_results of
              Inl e \<Rightarrow> Some (Inl e, reqs)
            | Inr response \<Rightarrow>
                (let (cs, n) = append_items (items response) (comments st, comment_count st);
                     tok = nextPageToken response
                 in if falsy_token tok \<or> n \<ge> max_comments then Some (Inr cs, reqs)
                    else get_comments_loop api video_id max_comments
                           \<lparr>comments = cs, next_page_token = tok,
                            comment_count = n, requests = reqs\<rparr>))
      else Some (Inr (comments st), requests st))"

declare get_comments_loop.simps [code]

definition initial_state :: paginator_state where
  "initial_state = \<lparr>comments = [], next_page_token = None, comment_count = 0, requests = []\<rparr>"

text \<open>
  \<open>get_comments\<close>: the loop inside \<open>try\<close>; the handler of \<open>HttpError\<close> prints and
  executes \<open>return []\<close>.
\<close>

definition get_comments ::
  "threads_api \<Rightarrow> string \<Rightarrow> int \<Rightarrow> (comment list \<times> request list) option" where
  "get_comments api video_id max_comments =
     (case get_comments_loop api video_id max_comments initial_state of
        None \<Rightarrow> None
      | Some (Inl e, reqs) \<Rightarrow> Some ([], reqs)
      | Some (Inr cs, reqs) \<Rightarrow> Some (cs, reqs))"

text \<open>
  The state in which the loop begins its next iteration after \<open>n\<close> iterations that
  each retrieved a page and went on: the body of the loop, taken \<open>n\<close> times. \<open>None\<close>
  when the loop is left before.
\<close>

fun after_pages ::
  "nat \<Rightarrow> threads_api \<Rightarrow> string \<Rightarrow> int \<Rightarrow> paginator_state \<Rightarrow> paginator_state option" where
  "after_pages 0 api video_id max_comments st = Some st"
| "after_pages (Suc n) api video_id max_comments st =
     (if comment_count st < max_comments then
        (let max_results = min 100 (max_comments - comment_count st);
             reqs = requests st @ [CommentThreadsList video_id (next_page_token st) max_results]
         in case api video_id (next_page_token st) max_results of
              Inl e \<Rightarrow> None
            | Inr response \<Rightarrow>
                (let (cs, k) = append_items (items response) (comments st, comment_count st);
                     tok = nextPageToken response
                 in if falsy_token tok \<or> k \<ge> max_comments then None
                    else after_pages n api video_id max_comments
                           \<lparr>comments = cs, next_page_token = tok,
                            comment_count = k, requests = reqs\<rparr>))
      else None)"

subsection \<open>What the paginator expects of the remote\<close>

text \<open>
  A remote serves the top-level comments \<open>avail\<close> of a video when every request with
  \<open>maxResults \<ge> 1\<close> succeeds and answers with the next \<open>j \<le> maxResults\<close> comments after
  the position \<open>off tok\<close> its page token stands for, together with a usable token for the
  position after them while comments remain (then the page is not empty), and with no
  token once they are exhausted. The token is opaque: only \<open>off\<close> reads it.
\<close>

definition serves ::
  "threads_api \<Rightarrow> string \<Rightarrow> thread_item list \<Rightarrow> (string option \<Rightarrow> nat) \<Rightarrow> bool" where
  "serves api video_id avail off \<longleftrightarrow>
     off None = 0 \<and>
     (\<forall>tok k. 1 \<le> k \<longrightarrow>
        (\<exists>j tok'. api video_id tok k =
                     Inr \<lparr>items = take j (drop (off tok) avail), nextPageToken = tok'\<rparr> \<and>
                   j \<le> nat k \<and>
                   (if off tok + j < length avail
                    then 1 \<le> j \<and> \<not> falsy_token tok' \<and> off tok' = off tok + j
                    else falsy_token tok')))"

text \<open>A remote honours \<open>maxResults\<close> when no page it returns is longer than asked for.\<close>

definition honours_max_results :: "threads_api \<Rightarrow> string \<Rightarrow> bool" where
  "honours_max_results api video_id \<longleftrightarrow>
     (\<forall>tok k page. 1 \<le> k \<longrightarrow> api video_id tok k = Inr page \<longrightarrow>
        int (length (items page)) \<le> k)"

subsection \<open>Sample remotes\<close>

text \<open>
  A remote that serves \<open>avail\<close> in pages of at most \<open>cap\<close> comments; its page token is
  a string as long as the position it stands for.
\<close>

definition token_offset :: "string option \<Rightarrow> nat" where
  "token_offset tok = (case tok of None \<Rightarrow> 0 | Some t \<Rightarrow> length t)"

definition paged_server :: "nat \<Rightarrow> thread_item list \<Rightarrow> threads_api" where
  "paged_server cap avail video_id tok k =
     (let off = token_offset tok;
          j = min cap (nat k)
      in Inr \<lparr>items = take j (drop off avail),
              nextPageToken = (if off + j < length avail
                               then Some (replicate (off + j) (CHR ''p'')) else None)\<rparr>)"

text \<open>The same remote, except that every request after the first page fails.\<close>

definition flaky_server :: "nat \<Rightarrow> thread_item list \<Rightarrow> threads_api" where
  "flaky_server cap avail video_id tok k =
     (case tok of None \<Rightarrow> paged_server cap avail video_id None k
      | Some t \<Rightarrow> Inl HttpError)"

text \<open>A remote on which every request fails.\<close>

definition failing_server :: threads_api where
  "failing_server video_id tok k = Inl HttpError"

definition sample_item :: "string \<Rightarrow> string \<Rightarrow> int \<Rightarrow> thread_item" where
  "sample_item who txt likes =
     \<lparr>authorDisplayName = who, textDisplay = txt,
      publishedAt = ''2024-05-01T10:00:00Z'', likeCount = likes, totalReplyCount = 0\<rparr>"

definition sample_items :: "thread_item list" where
  "sample_items =
     [sample_item ''ann'' ''great video loved it'' 7,
      sample_item ''bob'' ''terrible waste of time'' 2,
      sample_item ''cyd'' ''okay I guess'' 7]"

section \<open>Characters and the two regular expressions\<close>

text \<open>
  A character is its code point; the 8-bit type \<open>char\<close> covers the code points
  U+0000 to U+00FF of a Python \<open>str\<close>. The tables below are Python's for that range.
\<close>

definition code :: "char \<Rightarrow> nat" where
  "code c = of_char c"

text \<open>The class \<open>[a-zA-Z]\<close>.\<close>

definition is_letter :: "char \<Rightarrow> bool" where
  "is_letter c \<longleftrightarrow> (65 \<le> code c \<and> code c \<le> 90) \<or> (97 \<le> code c \<and> code c \<le> 122)"


text \<open>
  The class \<open>\w\<close> of a \<open>str\<close> pattern: the alphanumeric characters and the underscore.
  Beyond ASCII these are the letters, the superscript digits and the fractions of the
  Latin-1 block.
\<close>

definition is_word :: "char \<Rightarrow> bool" where
  "is_word c \<longleftrightarrow>
     (48 \<le> code c \<and> code c \<le> 57) \<or> is_letter c \<or> code c = 95 \<or>
     code c = 170 \<or> code c = 178 \<or> code c = 179 \<or> code c = 181 \<or>
     code c = 185 \<or> code c = 186 \<or> (188 \<le> code c \<and> code c \<le> 190) \<or>
     (192 \<le> code c \<and> code c \<le> 214) \<or> (216 \<le> code c \<and> code c \<le> 246) \<or>
     248 \<le> code c"

text \<open>
  \<open>str.lower()\<close>, one character at a time: the capital letters of ASCII and of the
  Latin-1 block (U+00C0 to U+00DE without the multiplication sign U+00D7) move up by 32.
\<close>

definition lower_char :: "char \<Rightarrow> char" where
  "lower_char c =
     (if (65 \<le> code c \<and> code c \<le> 90) \<or> (192 \<le> code c \<and> code c \<le> 222 \<and> code c \<noteq> 215)
      then char_of (code c + 32) else c)"

definition lower :: "string \<Rightarrow> string" where
  "lower s = map lower_char s"

text \<open>The class \<open>[0-9A-Za-z_-]\<close> of the video id pattern.\<close>

definition is_id_char :: "char \<Rightarrow> bool" where
  "is_id_char c \<longleftrightarrow>
     (48 \<le> code c \<and> code c \<le> 57) \<or> is_letter c \<or> code c = 95 \<or> code c = 45"

section \<open>Video Resolver\<close>

text \<open>\<open>([0-9A-Za-z_-]{11})\<close> at the head of \<open>s\<close>: the group, if it matches.\<close>

definition id_group :: "string \<Rightarrow> string option" where
  "id_group s = (if 11 \<le> length s \<and> list_all is_id_char (take 11 s) then Some (take 11 s) else None)"

text \<open>
  The pattern \<open>(?:v=|\/)([0-9A-Za-z_-]{11}).*\<close> tried at the head of \<open>s\<close>: the
  alternative \<open>v=\<close> first, then \<open>/\<close>; the trailing \<open>.*\<close> matches whatever follows.
\<close>

definition match_here :: "string \<Rightarrow> string option" where
  "match_here s =
     (case (if take 2 s = ''v='' then id_group (drop 2 s) else None) of
        Some g \<Rightarrow> Some g
      | None \<Rightarrow> (if take 1 s = ''/'' then id_group (drop 1 s) else None))"

text \<open>\<open>re.search\<close>: the match at the leftmost position that has one.\<close>

fun search :: "string \<Rightarrow> string option" where
  "search [] = None"
| "search (c # cs) = (case match_here (c # cs) of Some g \<Rightarrow> Some g | None \<Rightarrow> search cs)"

definition extract_video_id :: "string \<Rightarrow> string option" where
  "extract_video_id url = search url"

section \<open>Metadata Fetcher\<close>

text \<open>
  The first item of a \<open>videos().list\<close> response. The statistics are optional keys
  (read with \<open>.get(key, 0)\<close>) whose numeric strings \<open>int()\<close> converts; the model carries
  the numbers.
\<close>

record video_item =
  snippet_title :: string
  snippet_channelTitle :: string
  snippet_publishedAt :: string
  statistics_viewCount :: "int option"
  statistics_likeCount :: "int option"
  statistics_commentCount :: "int option"
  contentDetails_duration :: string

record video_details =
  details_title :: string
  details_channel :: string
  details_published_at :: string
  details_view_count :: int
  details_like_count :: int
  details_comment_count :: int
  details_duration :: string

type_synonym videos_api = "string \<Rightarrow> http_error + video_item list"

definition get_or_0 :: "int option \<Rightarrow> int" where
  "get_or_0 v = (case v of None \<Rightarrow> 0 | Some n \<Rightarrow> n)"

text \<open>One request; \<open>None\<close> when the response has no items and when \<open>HttpError\<close> is raised.\<close>

definition get_video_details :: "videos_api \<Rightarrow> string \<Rightarrow> video_details option \<times> request list" where
  "get_video_details api video_id =
     (case api video_id of
        Inl e \<Rightarrow> None
      | Inr response_items \<Rightarrow>
          (case response_items of
             [] \<Rightarrow> None
           | video_data # _ \<Rightarrow>
               Some \<lparr>details_title = snippet_title video_data,
                     details_channel = snippet_channelTitle video_data,
                     details_published_at = snippet_publishedAt video_data,
                     details_view_count = get_or_0 (statistics_viewCount video_data),
                     details_like_count = get_or_0 (statistics_likeCount video_data),
                     details_comment_count = get_or_0 (statistics_commentCount video_data),
                     details_duration = contentDetails_duration video_data\<rparr>),
      [VideosList video_id])"

section \<open>Sentiment Annotator\<close>

text \<open>
  The sentiment scorer \<open>TextBlob(text).sentiment\<close> is an external capability: a function
  from a text to its polarity and subjectivity.
\<close>

type_synonym scorer = "string \<Rightarrow> real \<times> real"

text \<open>
  The float literal \<open>0.1\<close> denotes the double nearest to one tenth, which is
  \<open>3602879701896397 / 2^55\<close>; \<open>-0.1\<close> is its negation. Comparison of floats is exact.
\<close>

definition float_0_1 :: real where
  "float_0_1 = 3602879701896397 / 36028797018963968"

text \<open>
  The body of the loop of \<open>analyze_sentiment\<close> for one comment. \<open>comment['text']\<close> raises
  \<open>KeyError\<close> when the key is absent, before any key is stored; the label is decided by
  \<open>comment['polarity']\<close>, the value just stored.
\<close>

definition annotate :: "scorer \<Rightarrow> comment \<Rightarrow> py_error + comment" where
  "annotate TextBlob c =
     (case comment_text c of
        None \<Rightarrow> Inl KeyError
      | Some t \<Rightarrow>
          (let (p, s) = TextBlob t;
               c1 = c\<lparr>polarity := Some p\<rparr>;
               c2 = c1\<lparr>subjectivity := Some s\<rparr>
           in Inr (if p > float_0_1 then c2\<lparr>sentiment := Some ''positive''\<rparr>
                   else if p < - float_0_1 then c2\<lparr>sentiment := Some ''negative''\<rparr>
                   else c2\<lparr>sentiment := Some ''neutral''\<rparr>)))"

text \<open>
  \<open>analyze_sentiment\<close>: the comments in order; an exception leaves the loop and the
  function.
\<close>

fun analyze_sentiment :: "scorer \<Rightarrow> comment list \<Rightarrow> py_error + comment list" where
  "analyze_sentiment TextBlob [] = Inr []"
| "analyze_sentiment TextBlob (c # cs) =
     (case annotate TextBlob c of
        Inl e \<Rightarrow> Inl e
      | Inr c' \<Rightarrow>
          (case analyze_sentiment TextBlob cs of
             Inl e \<Rightarrow> Inl e
           | Inr cs' \<Rightarrow> Inr (c' # cs')))"

section \<open>Lexical Aggregator\<close>

text \<open>
  \<open>re.findall(r'\b[a-zA-Z]{n,}\b', s)\<close>, scanning from the left. \<open>s\<close> is what remains
  of the text from the current position on, \<open>prev\<close> tells whether the character before
  it is a word character, and \<open>must_advance\<close> whether the previous match was empty and
  ended here, in which case no empty match is accepted at this position.

  \<open>\b\<close> holds at a position when exactly one of the characters before and after it is a
  word character (the ends of the text count as non-word). Where it holds, the greedy
  \<open>{n,}\<close> takes the whole run of letters that starts here; \<open>\b\<close> after a non-empty
  run holds when the run ends the text or a non-word character follows. Giving letters
  back cannot help, as \<open>\b\<close> fails between two letters, except giving all of them back:
  the empty string matches here when \<open>n = 0\<close>. After a match the scan resumes behind
  it; without a match it moves on by one character.
\<close>

function findall_words :: "nat \<Rightarrow> bool \<Rightarrow> bool \<Rightarrow> string \<Rightarrow> string list" where
  "findall_words n must_advance prev s =
     (let run = takeWhile is_letter s;
          rest = dropWhile is_letter s;
          boundary = (prev \<noteq> (case s of [] \<Rightarrow> False | c # _ \<Rightarrow> is_word c))
      in if boundary \<and> run \<noteq> [] \<and> n \<le> length run \<and>
            (case rest of [] \<Rightarrow> True | d # _ \<Rightarrow> \<not> is_word d)
         then run # findall_words n False True rest
         else if boundary \<and> n = 0 \<and> \<not> must_advance
         then [] # findall_words n True prev s
         else (case s of [] \<Rightarrow> [] | c # cs \<Rightarrow> findall_words n False (is_word c) cs))"
  by pat_completeness auto
termination
proof (relation "measure (\<lambda>(n, must_advance, prev, s).
                   2 * length s + (if must_advance then 0 else 1))")
  show "wf (measure (\<lambda>(n, must_advance, prev, s).
                   2 * length s + (if must_advance then 0 else 1)))"
    by simp
next
  fix n :: nat and must_advance prev :: bool and s run rest :: string and boundary :: bool
  assume "run = takeWhile is_letter s" and "rest = dropWhile is_letter s"
    and "boundary \<and> run \<noteq> [] \<and> n \<le> length run \<and>
         (case rest of [] \<Rightarrow> True | d # _ \<Rightarrow> \<not> is_word d)"
  then have "length run + length rest = length s" and "0 < length run"
    by (simp_all add: length_append [symmetric] del: length_append)
  then have "length rest < length s" by linarith
  then show "((n, False, True, rest), (n, must_advance, prev, s)) \<in>
      measure (\<lambda>(n, must_advance, prev, s). 2 * length s + (if must_advance then 0 else 1))"
    by simp
qed auto

declare findall_words.simps [simp del]

text \<open>
  \<open>'%d' % min_length\<close> for a negative number: a minus sign and the decimal digits.
\<close>

definition digit_char :: "nat \<Rightarrow> char" where
  "digit_char d = char_of (48 + d)"

function decimal :: "nat \<Rightarrow> string" where
  "decimal n = (if n < 10 then [digit_char n] else decimal (n div 10) @ [digit_char (n mod 10)])"
  by pat_completeness auto
termination
  by (relation "measure (\<lambda>n. n)") auto

declare decimal.simps [simp del]

text \<open>
  With a negative \<open>min_length\<close> the braces do not hold a repetition count, and the
  pattern reads them as ordinary characters: \<open>\b[a-zA-Z]\<close>, then the text
  \<open>{-k,}\<close> itself, then \<open>\b\<close>.
\<close>

definition repetition_text :: "int \<Rightarrow> string" where
  "repetition_text min_length = ''{-'' @ decimal (nat (- min_length)) @ '',}''"

text \<open>
  \<open>re.findall\<close> of that pattern: a letter that a non-word character or the start
  precedes, followed by the text \<open>lit\<close>, followed by a word character (the text ends
  with a brace, so \<open>\b\<close> after it asks for one). The match is the letter and the text;
  the scan resumes behind the brace.
\<close>

function findall_literal :: "string \<Rightarrow> bool \<Rightarrow> string \<Rightarrow> string list" where
  "findall_literal lit prev [] = []"
| "findall_literal lit prev (c # cs) =
     (if \<not> prev \<and> is_letter c \<and> take (length lit) cs = lit \<and>
         (case drop (length lit) cs of [] \<Rightarrow> False | d # _ \<Rightarrow> is_word d)
      then (c # lit) # findall_literal lit False (drop (length lit) cs)
      else findall_literal lit (is_word c) cs)"
  by pat_completeness auto
termination
  by (relation "measure (\<lambda>(lit, prev, s). length s)") auto

declare findall_literal.simps [simp del]

text \<open>
  The largest repetition count the \<open>re\<close> module accepts is below \<open>MAXREPEAT\<close>
  (\<open>2^32 - 1\<close>): compiling \<open>{n,}\<close> with a larger \<open>n\<close> raises \<open>OverflowError\<close>.
\<close>

definition MAXREPEAT :: int where
  "MAXREPEAT = 4294967295"

text \<open>
  \<open>re.findall(r'\b[a-zA-Z]{%d,}\b' % min_length, s)\<close> for every integer
  \<open>min_length\<close>.
\<close>

definition findall :: "int \<Rightarrow> string \<Rightarrow> py_error + string list" where
  "findall min_length s =
     (if min_length < 0 then Inr (findall_literal (repetition_text min_length) False s)
      else if MAXREPEAT \<le> min_length then Inl OverflowError
      else Inr (findall_words (nat min_length) False False s))"

text \<open>The built-in stop words, used when \<open>stopwords\<close> is \<open>None\<close>.\<close>

definition default_stopwords :: "string set" where
  "default_stopwords =
     {''the'', ''and'', ''is'', ''of'', ''to'', ''in'', ''that'', ''it'', ''with'', ''for'',
      ''on'', ''at'', ''this'', ''was'', ''are'', ''be'', ''as'', ''but'', ''or'', ''have'',
      ''from'', ''by'', ''not'', ''what'', ''all'', ''were'', ''when'', ''we'', ''there'',
      ''been'', ''one'', ''will'', ''would'', ''who'', ''you'', ''your'', ''they'', ''their'',
      ''has'', ''had'', ''how'', ''up'', ''his'', ''her'', ''an'', ''my'', ''so'', ''if'',
      ''out'', ''about'', ''me'', ''no'', ''more'', ''do'', ''can''}"

definition stopwords_or_default :: "string set option \<Rightarrow> string set" where
  "stopwords_or_default stopwords = (case stopwords of None \<Rightarrow> default_stopwords | Some s \<Rightarrow> s)"

text \<open>
  The loop that fills \<open>all_words\<close>: the words of each comment's lowercased text that are
  not stop words, appended in order. \<open>comment['text']\<close> raises \<open>KeyError\<close> when absent;
  it is evaluated before \<open>re.findall\<close> is called.
\<close>

fun all_words_loop ::
  "int \<Rightarrow> string set \<Rightarrow> string list \<Rightarrow> comment list \<Rightarrow> py_error + string list" where
  "all_words_loop min_length stopwords all_words [] = Inr all_words"
| "all_words_loop min_length stopwords all_words (c # cs) =
     (case comment_text c of
        None \<Rightarrow> Inl KeyError
      | Some t \<Rightarrow>
          (case findall min_length (lower t) of
             Inl e \<Rightarrow> Inl e
           | Inr words \<Rightarrow>
               (let words' = filter (\<lambda>word. word \<notin> stopwords) words
                in all_words_loop min_length stopwords (all_words @ words') cs)))"

text \<open>
  \<open>Counter(all_words)\<close>: a dictionary in insertion order, so in order of first
  occurrence; counting a word again updates its entry in place.
\<close>

fun count_word :: "string \<Rightarrow> (string \<times> nat) list \<Rightarrow> (string \<times> nat) list" where
  "count_word w [] = [(w, 1)]"
| "count_word w ((k, n) # kns) = (if k = w then (k, n + 1) # kns else (k, n) # count_word w kns)"

definition Counter :: "string list \<Rightarrow> (string \<times> nat) list" where
  "Counter ws = foldl (\<lambda>counts w. count_word w counts) [] ws"

text \<open>
  \<open>most_common(n)\<close>: the \<open>n\<close> entries of highest count, highest first, entries of equal
  count in the order first encountered; nothing when \<open>n \<le> 0\<close>. \<open>sort_key\<close> is a stable
  sort.
\<close>

definition most_common :: "int \<Rightarrow> (string \<times> nat) list \<Rightarrow> (string \<times> nat) list" where
  "most_common n counts = take (nat n) (sort_key (\<lambda>(w, k). - int k) counts)"

text \<open>\<open>extract_common_words\<close>, for every integer \<open>min_length\<close> and \<open>max_words\<close>.\<close>

definition extract_common_words ::
  "comment list \<Rightarrow> int \<Rightarrow> int \<Rightarrow> string set option \<Rightarrow> py_error + (string \<times> nat) list" where
  "extract_common_words cs min_length max_words stopwords =
     (case all_words_loop min_length (stopwords_or_default stopwords) [] cs of
        Inl e \<Rightarrow> Inl e
      | Inr all_words \<Rightarrow> Inr (most_common max_words (Counter all_words)))"

section \<open>Report Compiler\<close>

text \<open>
  What \<open>generate_report\<close> consumes from outside the repository: the two remote calls, the
  sentiment scorer, and the table sort \<open>df.sort_values('like_count', ascending=False)\<close>,
  which is called without a \<open>kind\<close> argument.
\<close>

record env =
  videos_list :: videos_api
  comment_threads_list :: threads_api
  text_blob :: scorer
  sort_values :: "comment list \<Rightarrow> comment list"

text \<open>
  What is known of \<open>sort_values\<close>: it returns the rows it was given, ordered by
  descending like count.
\<close>

definition sorts_by_likes_descending :: "(comment list \<Rightarrow> comment list) \<Rightarrow> bool" where
  "sorts_by_likes_descending sv \<longleftrightarrow>
     (\<forall>cs. mset (sv cs) = mset cs \<and> sorted_wrt (\<lambda>a b. like_count a \<ge> like_count b) (sv cs))"

record comment_stats =
  total_analyzed :: nat
  sentiment_distribution :: "string \<rightharpoonup> nat"
  avg_polarity :: real
  avg_subjectivity :: real

record report =
  report_video_details :: video_details
  report_comment_stats :: comment_stats
  common_words :: "(string \<times> nat) list"
  top_comments :: "comment list"
  all_comments :: "comment list"

text \<open>
  \<open>df['sentiment'].value_counts().to_dict()\<close>: the labels that occur, each with the
  number of rows that carry it.
\<close>

definition value_counts :: "comment list \<Rightarrow> (string \<rightharpoonup> nat)" where
  "value_counts cs =
     (\<lambda>label. let k = length (filter (\<lambda>c. sentiment c = Some label) cs)
              in if k = 0 then None else Some k)"

text \<open>
  \<open>df[column].mean()\<close> over the rows that have a value, taken over the reals: the
  rounding of the floating-point sum and quotient is not modelled. \<open>generate_report\<close>
  takes it of at least one value; of no value pandas gives NaN, which no real number
  stands for.
\<close>

definition mean :: "real list \<Rightarrow> real" where
  "mean xs = sum_list xs / real (length xs)"

datatype result =
  Raised py_error
  | Error string
  | Report report

text \<open>
  The dictionary \<open>results\<close> that \<open>generate_report\<close> compiles from the details, the
  annotated comments and the common words.
\<close>

definition results :: "env \<Rightarrow> video_details \<Rightarrow> comment list \<Rightarrow> (string \<times> nat) list \<Rightarrow> report" where
  "results e details analyzed_comments words =
     \<lparr>report_video_details = details,
      report_comment_stats =
        \<lparr>total_analyzed = length analyzed_comments,
         sentiment_distribution = value_counts analyzed_comments,
         avg_polarity = mean (List.map_filter polarity analyzed_comments),
         avg_subjectivity = mean (List.map_filter subjectivity analyzed_comments)\<rparr>,
      common_words = words,
      top_comments = take 5 (sort_values e analyzed_comments),
      all_comments = analyzed_comments\<rparr>"

text \<open>
  \<open>generate_report\<close>, with the requests it issues. \<open>not video_id\<close> holds of \<open>None\<close> and
  of the empty string, \<open>not details\<close> of \<open>None\<close> (the dictionary of details is never
  empty), \<open>not comments\<close> of the empty list. \<open>extract_common_words\<close> is called with its
  defaults. \<open>None\<close> is a run whose pagination never ends; \<open>Raised\<close> is an exception that
  leaves \<open>generate_report\<close>.
\<close>

definition generate_report :: "env \<Rightarrow> string \<Rightarrow> int \<Rightarrow> (result \<times> request list) option" where
  "generate_report e url max_comments =
     (case extract_video_id url of
        None \<Rightarrow> Some (Error ''Invalid YouTube URL'', [])
      | Some video_id \<Rightarrow>
          if video_id = [] then Some (Error ''Invalid YouTube URL'', [])
          else
            (case get_video_details (videos_list e) video_id of
               (None, reqs1) \<Rightarrow> Some (Error ''Could not retrieve video details'', reqs1)
             | (Some details, reqs1) \<Rightarrow>
                 (case get_comments (comment_threads_list e) video_id max_comments of
                    None \<Rightarrow> None
                  | Some (cs, reqs2) \<Rightarrow>
                      if cs = []
                      then Some (Error ''No comments found or comments are disabled'',
                                 reqs1 @ reqs2)
                      else
                        (case analyze_sentiment (text_blob e) cs of
                           Inl err \<Rightarrow> Some (Raised err, reqs1 @ reqs2)
                         | Inr analyzed_comments \<Rightarrow>
                             (case extract_common_words analyzed_comments 4 100 None of
                                Inl err \<Rightarrow> Some (Raised err, reqs1 @ reqs2)
                              | Inr words \<Rightarrow>
                                  Some (Report (results e details analyzed_comments words),
                                        reqs1 @ reqs2))))))"

section \<open>Vocabulary of the statements\<close>

subsection \<open>Video Resolver\<close>

text \<open>
  \<open>token_after url k v\<close>: the 11 characters of the URL from position \<open>k\<close> on exist,
  are id characters, and are \<open>v\<close>; nothing is asked of the character after them.
  \<open>token_at url i v\<close>: a marker, \<open>v=\<close> or \<open>/\<close>, starts at position \<open>i\<close> and is
  immediately followed by such 11 characters \<open>v\<close>.
\<close>

definition token_after :: "string \<Rightarrow> nat \<Rightarrow> string \<Rightarrow> bool" where
  "token_after url k v \<longleftrightarrow>
     k + 11 \<le> length url \<and> list_all is_id_char (take 11 (drop k url)) \<and>
     v = take 11 (drop k url)"

definition token_at :: "string \<Rightarrow> nat \<Rightarrow> string \<Rightarrow> bool" where
  "token_at url i v \<longleftrightarrow>
     (take 2 (drop i url) = ''v='' \<and> token_after url (i + 2) v) \<or>
     (take 1 (drop i url) = ''/'' \<and> token_after url (i + 1) v)"

subsection \<open>Sentiment Annotator\<close>

text \<open>The label the thresholds give a polarity.\<close>

definition label_of :: "real \<Rightarrow> string" where
  "label_of p =
     (if p > float_0_1 then ''positive'' else if p < - float_0_1 then ''negative''
      else ''neutral'')"

subsection \<open>Lexical Aggregator\<close>


subsection \<open>Sample comments and a sample scorer\<close>

definition sample_comments :: "comment list" where
  "sample_comments = map comment_of_item sample_items"

text \<open>A dictionary that lacks the key \<open>text\<close>.\<close>

definition textless_comment :: comment where
  "textless_comment =
     \<lparr>author = ''dee'', comment_text = None, published_at = ''2024-05-02T09:30:00Z'',
      like_count = 1, reply_count = 0,
      polarity = None, subjectivity = None, sentiment = None\<rparr>"

definition empty_comment :: comment where
  "empty_comment = textless_comment\<lparr>comment_text := Some []\<rparr>"

text \<open>
  A scorer defined on a few texts; everything else, the empty text included, scores
  \<open>(0, 0)\<close>. Two texts sit exactly on the thresholds.
\<close>

definition sample_scorer :: scorer where
  "sample_scorer t =
     (if t = ''great video loved it'' then (13 / 20, 31 / 40)
      else if t = ''terrible waste of time'' then (- 3 / 5, 1 / 2)
      else if t = ''on the upper threshold'' then (float_0_1, 1 / 4)
      else if t = ''on the lower threshold'' then (- float_0_1, 1 / 4)
      else (0, 0))"


definition threshold_comments :: "comment list" where
  "threshold_comments =
     [empty_comment\<lparr>comment_text := Some ''on the upper threshold''\<rparr>,
      empty_comment\<lparr>comment_text := Some ''on the lower threshold''\<rparr>]"

subsection \<open>Report Compiler\<close>

text \<open>A stable sort by descending like count, for the sample runs.\<close>

definition stable_descending :: "comment list \<Rightarrow> comment list" where
  "stable_descending cs = sort_key (\<lambda>c. - like_count c) cs"

text \<open>A sample remote for \<open>videos().list\<close>: one known video, one id that fails.\<close>

definition sample_videos :: videos_api where
  "sample_videos video_id =
     (if video_id = ''dQw4w9WgXcQ'' then
        Inr [\<lparr>snippet_title = ''Sample video'', snippet_channelTitle = ''Sample channel'',
              snippet_publishedAt = ''2024-04-30T08:00:00Z'',
              statistics_viewCount = Some 1200, statistics_likeCount = Some 85,
              statistics_commentCount = None, contentDetails_duration = ''PT4M13S''\<rparr>]
      else if video_id = ''unreachable'' then Inl HttpError
      else Inr [])"

definition sample_env :: "(comment list \<Rightarrow> comment list) \<Rightarrow> thread_item list \<Rightarrow> env" where
  "sample_env sv avail =
     \<lparr>videos_list = sample_videos, comment_threads_list = paged_server 2 avail,
      text_blob = sample_scorer, sort_values = sv\<rparr>"

section \<open>Properties of the Comment Paginator\<close>

lemma append_items_eq:
  "append_items its (cs, n) = (cs @ map comment_of_item its, n + int (length its))"
  by (induction its arbitrary: cs n) auto

text \<open>
  C10. For every video id and every \<open>max_comments \<le> 0\<close>, \<open>get_comments\<close> returns the
  empty sequence and issues no remote request: the loop is never entered.
\<close>

theorem get_comments_nonpositive:
  "max_comments \<le> 0 \<Longrightarrow> get_comments api video_id max_comments = Some ([], [])"
  by (simp add: get_comments_def get_comments_loop.simps initial_state_def)

theorem get_comments_nonpositive_witness:
  "(-3::int) \<le> 0 \<and>
   get_comments (paged_server 2 sample_items) ''dQw4w9WgXcQ'' (-3) = Some ([], [])"
  using get_comments_nonpositive [of "-3" "paged_server 2 sample_items" "''dQw4w9WgXcQ''"]
  by simp

subsection \<open>Requests of a run that returned comments all succeeded\<close>

lemma loop_requests_succeeded:
  assumes "get_comments_loop api vid N st = Some res"
  shows "(\<forall>tok k. CommentThreadsList vid tok k \<in> set (requests st) \<longrightarrow> (\<exists>p. api vid tok k = Inr p)) \<longrightarrow>
         (\<forall>cs reqs tok k. res = (Inr cs, reqs) \<longrightarrow> CommentThreadsList vid tok k \<in> set reqs \<longrightarrow>
            (\<exists>p. api vid tok k = Inr p))"
  using assms
proof (induction rule: get_comments_loop.raw_induct[rotated 1, consumes 1, case_names step])
  case (step loop api vid N st res)
  note 1 = step
  show ?case
  proof (cases "comment_count st < N")
    case False
    with 1(2) show ?thesis by auto
  next
    case True
    let ?k = "min 100 (N - comment_count st)"
    show ?thesis
    proof (cases "api vid (next_page_token st) ?k")
      case (Inl e)
      with True 1(2) show ?thesis by (auto simp: Let_def)
    next
      case (Inr page)
      obtain cs n where ai: "append_items (items page) (comments st, comment_count st) = (cs, n)"
        by (cases "append_items (items page) (comments st, comment_count st)")
      show ?thesis
      proof (cases "falsy_token (nextPageToken page) \<or> N \<le> n")
        case stop: True
        with True Inr ai 1(2) show ?thesis by (auto simp: Let_def)
      next
        case go: False
        with True Inr ai 1(2) have
          rec: "loop api vid N \<lparr>comments = cs, next_page_token = nextPageToken page,
                 comment_count = n, requests = requests st @ [CommentThreadsList vid (next_page_token st) ?k]\<rparr> = Some res"
          by (auto simp: Let_def)
        show ?thesis
        proof
          assume pre: "\<forall>tok k. CommentThreadsList vid tok k \<in> set (requests st) \<longrightarrow> (\<exists>p. api vid tok k = Inr p)"
          have "\<forall>tok k. CommentThreadsList vid tok k \<in> set (requests st @ [CommentThreadsList vid (next_page_token st) ?k]) \<longrightarrow> (\<exists>p. api vid tok k = Inr p)"
            using pre Inr by auto
          with 1(1)[OF rec] show "\<forall>cs reqs tok k. res = (Inr cs, reqs) \<longrightarrow> CommentThreadsList vid tok k \<in> set reqs \<longrightarrow>
            (\<exists>p. api vid tok k = Inr p)" by simp
        qed
      qed
    qed
  qed
qed

subsection \<open>A serving remote: the run ends with the first \<open>max_comments\<close> comments\<close>

lemma loop_serves:
  assumes srv: "serves api vid avail off"
  shows "comment_count st = int c \<Longrightarrow> off (next_page_token st) = c \<Longrightarrow>
         comments st = map comment_of_item (take c avail) \<Longrightarrow> int c < N \<Longrightarrow>
         \<exists>reqs. get_comments_loop api vid N st =
                  Some (Inr (map comment_of_item (take (nat N) avail)), reqs)"
proof (induction "nat N - c" arbitrary: st c rule: less_induct)
  case less
  let ?k = "min 100 (N - comment_count st)"
  have k1: "1 \<le> ?k" using less.prems by simp
  from srv k1 obtain j tok' where
    resp: "api vid (next_page_token st) ?k =
            Inr \<lparr>items = take j (drop (off (next_page_token st)) avail), nextPageToken = tok'\<rparr>"
    and jk: "j \<le> nat ?k"
    and nxt: "if off (next_page_token st) + j < length avail
              then 1 \<le> j \<and> \<not> falsy_token tok' \<and> off tok' = off (next_page_token st) + j
              else falsy_token tok'"
    unfolding serves_def by blast
  let ?its = "take j (drop c avail)"
  have cs: "comments st @ map comment_of_item ?its = map comment_of_item (take (c + j) avail)"
    using less.prems(3) by (simp add: take_add)
  have jN: "int c + int j \<le> N" using jk less.prems by simp
  show ?case
  proof (cases "c + j < length avail")
    case more: True
    then have len: "length ?its = j" by simp
    from more nxt less.prems(2) have j1: "1 \<le> j" and tk: "\<not> falsy_token tok'" and off': "off tok' = c + j"
      by simp_all
    show ?thesis
    proof (cases "N \<le> int c + int j")
      case True
      with jN have "nat N = c + j" by simp
      with True resp less.prems tk cs len show ?thesis
        by (subst get_comments_loop.simps) (simp add: append_items_eq Let_def)
    next
      case False
      let ?st' = "\<lparr>comments = map comment_of_item (take (c + j) avail), next_page_token = tok',
                   comment_count = int c + int j,
                   requests = requests st @ [CommentThreadsList vid (next_page_token st) ?k]\<rparr>"
      have "nat N - (c + j) < nat N - c" using j1 False by simp
      from less.hyps[OF this, of ?st'] off' False
      obtain reqs where "get_comments_loop api vid N ?st' =
                  Some (Inr (map comment_of_item (take (nat N) avail)), reqs)" by auto
      with False resp less.prems tk cs len show ?thesis
        by (subst get_comments_loop.simps) (simp add: append_items_eq Let_def)
    qed
  next
    case final: False
    with nxt less.prems(2) have tk: "falsy_token tok'" by simp
    from final have all: "take (c + j) avail = avail" by simp
    from final jN have "length avail \<le> nat N" by simp
    then have "take (nat N) avail = avail" by simp
    with resp less.prems tk cs all show ?thesis
      by (subst get_comments_loop.simps) (simp add: append_items_eq Let_def)
  qed
qed

subsection \<open>A remote that honours \<open>maxResults\<close>: never more than \<open>max_comments\<close>\<close>

lemma loop_length_bounded:
  assumes "get_comments_loop api vid N st = Some res"
  shows "honours_max_results api vid \<longrightarrow> comment_count st = int (length (comments st)) \<longrightarrow>
         comment_count st \<le> N \<longrightarrow>
         (\<forall>cs reqs. res = (Inr cs, reqs) \<longrightarrow> int (length cs) \<le> N)"
  using assms
proof (induction rule: get_comments_loop.raw_induct[rotated 1, consumes 1, case_names step])
  case (step loop api vid N st res)
  show ?case
  proof (intro impI)
    assume hon: "honours_max_results api vid"
      and cnt: "comment_count st = int (length (comments st))"
      and le: "comment_count st \<le> N"
    show "\<forall>cs reqs. res = (Inr cs, reqs) \<longrightarrow> int (length cs) \<le> N"
    proof (cases "comment_count st < N")
      case False
      with step(2) cnt le show ?thesis by auto
    next
      case True
      let ?k = "min 100 (N - comment_count st)"
      have k1: "1 \<le> ?k" using True by simp
      show ?thesis
      proof (cases "api vid (next_page_token st) ?k")
        case (Inl e)
        with True step(2) show ?thesis by (auto simp: Let_def)
      next
        case (Inr page)
        from hon k1 Inr have "int (length (items page)) \<le> ?k"
          unfolding honours_max_results_def by blast
        then have n: "comment_count st + int (length (items page)) \<le> N" by simp
        let ?cs = "comments st @ map comment_of_item (items page)"
        let ?n = "comment_count st + int (length (items page))"
        show ?thesis
        proof (cases "falsy_token (nextPageToken page) \<or> N \<le> ?n")
          case True
          with \<open>comment_count st < N\<close> Inr step(2) n cnt show ?thesis
            by (auto simp: Let_def append_items_eq)
        next
          case False
          with \<open>comment_count st < N\<close> Inr step(2) have
            rec: "loop api vid N \<lparr>comments = ?cs, next_page_token = nextPageToken page,
                   comment_count = ?n,
                   requests = requests st @ [CommentThreadsList vid (next_page_token st) ?k]\<rparr> = Some res"
            by (auto simp: Let_def append_items_eq)
          from step(1)[OF rec] hon n cnt show ?thesis by simp
        qed
      qed
    qed
  qed
qed

lemma paged_server_serves:
  "1 \<le> cap \<Longrightarrow> serves (paged_server cap avail) video_id avail token_offset"
  unfolding serves_def
proof (intro conjI allI impI)
  show "token_offset None = 0" by (simp add: token_offset_def)
next
  fix tok :: "string option" and k :: int
  assume cap: "1 \<le> cap" and k: "1 \<le> k"
  let ?j = "min cap (nat k)"
  let ?tok' = "if token_offset tok + ?j < length avail
               then Some (replicate (token_offset tok + ?j) (CHR ''p'')) else None"
  have "paged_server cap avail video_id tok k =
          Inr \<lparr>items = take ?j (drop (token_offset tok) avail), nextPageToken = ?tok'\<rparr>"
    by (simp add: paged_server_def Let_def)
  moreover have "?j \<le> nat k" by simp
  moreover have "if token_offset tok + ?j < length avail
        then 1 \<le> ?j \<and> \<not> falsy_token ?tok' \<and> token_offset ?tok' = token_offset tok + ?j
        else falsy_token ?tok'"
    using cap k by (auto simp: falsy_token_def token_offset_def)
  ultimately show "\<exists>j tok'. paged_server cap avail video_id tok k =
          Inr \<lparr>items = take j (drop (token_offset tok) avail), nextPageToken = tok'\<rparr> \<and>
          j \<le> nat k \<and>
          (if token_offset tok + j < length avail
           then 1 \<le> j \<and> \<not> falsy_token tok' \<and> token_offset tok' = token_offset tok + j
           else falsy_token tok')"
    by blast
qed

lemma paged_server_honours: "honours_max_results (paged_server cap avail) video_id"
  by (auto simp: honours_max_results_def paged_server_def Let_def)

text \<open>
  C4. For every positive \<open>max_comments = N\<close>: from a remote that serves the available
  top-level comments without failing, \<open>get_comments\<close> returns, in order, the first \<open>N\<close>
  of them, so \<open>min (available, N)\<close> comments, exactly \<open>N\<close> when at least \<open>N\<close> are
  available; and from any remote that honours \<open>maxResults\<close>, failing or not, whatever
  \<open>get_comments\<close> returns has at most \<open>N\<close> elements.
\<close>

theorem get_comments_length:
  assumes "0 < max_comments"
  shows "(serves api video_id avail off \<longrightarrow>
            (\<exists>cs reqs. get_comments api video_id max_comments = Some (cs, reqs) \<and>
               cs = map comment_of_item (take (nat max_comments) avail) \<and>
               length cs = min (length avail) (nat max_comments))) \<and>
         (honours_max_results api video_id \<longrightarrow>
            (\<forall>cs reqs. get_comments api video_id max_comments = Some (cs, reqs) \<longrightarrow>
               int (length cs) \<le> max_comments))"
proof (intro conjI impI allI)
  assume srv: "serves api video_id avail off"
  then have "off None = 0" by (simp add: serves_def)
  with loop_serves[OF srv, of initial_state 0 max_comments] assms
  obtain reqs where "get_comments_loop api video_id max_comments initial_state =
      Some (Inr (map comment_of_item (take (nat max_comments) avail)), reqs)"
    by (auto simp: initial_state_def)
  then show "\<exists>cs reqs. get_comments api video_id max_comments = Some (cs, reqs) \<and>
               cs = map comment_of_item (take (nat max_comments) avail) \<and>
               length cs = min (length avail) (nat max_comments)"
    by (simp add: get_comments_def min.commute)
next
  fix cs reqs
  assume hon: "honours_max_results api video_id"
    and res: "get_comments api video_id max_comments = Some (cs, reqs)"
  show "int (length cs) \<le> max_comments"
  proof (cases "get_comments_loop api video_id max_comments initial_state")
    case None
    with res show ?thesis by (simp add: get_comments_def)
  next
    case (Some r)
    show ?thesis
    proof (cases r)
      case (Pair out rq)
      show ?thesis
      proof (cases out)
        case (Inl e)
        with Some Pair res assms show ?thesis by (simp add: get_comments_def)
      next
        case (Inr cs')
        with Some Pair res have "cs' = cs" by (simp add: get_comments_def)
        with loop_length_bounded[OF Some] hon assms Pair Inr show ?thesis
          by (simp add: initial_state_def)
      qed
    qed
  qed
qed

theorem get_comments_length_witness:
  "(0::int) < 2 \<and>
   serves (paged_server 1 sample_items) ''dQw4w9WgXcQ'' sample_items token_offset \<and>
   honours_max_results (paged_server 1 sample_items) ''dQw4w9WgXcQ'' \<and>
   (\<exists>reqs. get_comments (paged_server 1 sample_items) ''dQw4w9WgXcQ'' 2 =
      Some (map comment_of_item (take 2 sample_items), reqs)) \<and>
   length (map comment_of_item (take 2 sample_items)) = 2"
  using get_comments_length [of 2 "paged_server 1 sample_items" "''dQw4w9WgXcQ''"
          sample_items token_offset]
    paged_server_serves [of 1 sample_items "''dQw4w9WgXcQ''"]
    paged_server_honours [of 1 sample_items "''dQw4w9WgXcQ''"]
  by (auto simp: sample_items_def)

subsection \<open>A failing request ends the run\<close>

lemma after_pages_loop:
  "after_pages n api vid N st = Some st' \<Longrightarrow>
   get_comments_loop api vid N st = get_comments_loop api vid N st'"
proof (induction n arbitrary: st)
  case 0
  then show ?case by simp
next
  case (Suc n)
  let ?k = "min 100 (N - comment_count st)"
  from Suc.prems have live: "comment_count st < N"
    by (simp split: if_splits)
  from Suc.prems live obtain page where page: "api vid (next_page_token st) ?k = Inr page"
    by (cases "api vid (next_page_token st) ?k") (simp_all add: Let_def)
  let ?cs = "comments st @ map comment_of_item (items page)"
  let ?n = "comment_count st + int (length (items page))"
  let ?st = "\<lparr>comments = ?cs, next_page_token = nextPageToken page, comment_count = ?n,
             requests = requests st @ [CommentThreadsList vid (next_page_token st) ?k]\<rparr>"
  from Suc.prems live page have go: "\<not> (falsy_token (nextPageToken page) \<or> N \<le> ?n)"
    by (auto simp: Let_def append_items_eq split: if_splits)
  with Suc.prems live page have "after_pages n api vid N ?st = Some st'"
    by (simp add: Let_def append_items_eq)
  then have "get_comments_loop api vid N ?st = get_comments_loop api vid N st'"
    by (rule Suc.IH)
  moreover from live page go have "get_comments_loop api vid N st = get_comments_loop api vid N ?st"
    by (subst get_comments_loop.simps) (simp add: Let_def append_items_eq)
  ultimately show ?case by simp
qed

lemma failing_request_ends_loop:
  assumes "comment_count st < N"
    and "api vid (next_page_token st) (min 100 (N - comment_count st)) = Inl e"
  shows "get_comments_loop api vid N st =
           Some (Inl e, requests st @
                   [CommentThreadsList vid (next_page_token st) (min 100 (N - comment_count st))])"
  using assms by (subst get_comments_loop.simps) (simp add: Let_def)

text \<open>
  C1, as the code has it. If a request that \<open>get_comments\<close> issues fails, be it the
  first or a later one, \<open>get_comments\<close> returns, and what it returns is the empty
  sequence: the handler returns \<open>[]\<close>, not the comments accumulated from the pages that
  had succeeded. The failing request is the one of the iteration that begins in the
  state reached after \<open>n\<close> retrieved pages, for any \<open>n\<close>. And wherever a run
  returned and the log holds a request that fails, the result is empty.
\<close>

theorem get_comments_failure_empty:
  "(after_pages n api video_id max_comments initial_state = Some st \<longrightarrow>
    comment_count st < max_comments \<longrightarrow>
    api video_id (next_page_token st) (min 100 (max_comments - comment_count st)) = Inl e \<longrightarrow>
      get_comments api video_id max_comments =
        Some ([], requests st @
                [CommentThreadsList video_id (next_page_token st)
                   (min 100 (max_comments - comment_count st))])) \<and>
   (get_comments api video_id max_comments = Some (cs, reqs) \<longrightarrow>
    CommentThreadsList video_id tok k \<in> set reqs \<longrightarrow>
    api video_id tok k = Inl e \<longrightarrow> cs = [])"
proof (intro conjI impI)
  assume reach: "after_pages n api video_id max_comments initial_state = Some st"
    and live: "comment_count st < max_comments"
    and fail: "api video_id (next_page_token st) (min 100 (max_comments - comment_count st)) = Inl e"
  from after_pages_loop[OF reach]
    failing_request_ends_loop[of st max_comments api video_id e, OF live fail]
  have "get_comments_loop api video_id max_comments initial_state =
      Some (Inl e, requests st @
              [CommentThreadsList video_id (next_page_token st)
                 (min 100 (max_comments - comment_count st))])"
    by simp
  then show "get_comments api video_id max_comments =
        Some ([], requests st @
                [CommentThreadsList video_id (next_page_token st)
                   (min 100 (max_comments - comment_count st))])"
    by (simp add: get_comments_def)
next
  assume ret: "get_comments api video_id max_comments = Some (cs, reqs)"
    and mem: "CommentThreadsList video_id tok k \<in> set reqs"
    and fail: "api video_id tok k = Inl e"
  show "cs = []"
  proof (cases "get_comments_loop api video_id max_comments initial_state")
    case None
    with ret show ?thesis by (simp add: get_comments_def)
  next
    case (Some r)
    show ?thesis
    proof (cases r)
      case (Pair out rq)
      show ?thesis
      proof (cases out)
        case (Inl e')
        with Some Pair ret show ?thesis by (simp add: get_comments_def)
      next
        case (Inr cs')
        with Some Pair ret have "rq = reqs" by (simp add: get_comments_def)
        with loop_requests_succeeded[OF Some] Pair Inr mem
        have "\<exists>p. api video_id tok k = Inr p" by (simp add: initial_state_def)
        with fail show ?thesis by simp
      qed
    qed
  qed
qed

theorem get_comments_failure_empty_witness:
  "after_pages 1 (flaky_server 2 sample_items) ''dQw4w9WgXcQ'' 5 initial_state =
     Some \<lparr>comments = map comment_of_item (take 2 sample_items),
           next_page_token = Some ''pp'', comment_count = 2,
           requests = [CommentThreadsList ''dQw4w9WgXcQ'' None 5]\<rparr> \<and>
   (2::int) < 5 \<and>
   flaky_server 2 sample_items ''dQw4w9WgXcQ'' (Some ''pp'') (min 100 (5 - 2)) = Inl HttpError \<and>
   get_comments (flaky_server 2 sample_items) ''dQw4w9WgXcQ'' 5 =
     Some ([], [CommentThreadsList ''dQw4w9WgXcQ'' None 5,
                CommentThreadsList ''dQw4w9WgXcQ'' (Some ''pp'') 3]) \<and>
   after_pages 0 failing_server ''dQw4w9WgXcQ'' 5 initial_state = Some initial_state \<and>
   failing_server ''dQw4w9WgXcQ'' None (min 100 (5 - 0)) = Inl HttpError \<and>
   get_comments failing_server ''dQw4w9WgXcQ'' 5 =
     Some ([], [CommentThreadsList ''dQw4w9WgXcQ'' None 5])"
proof -
  let ?st = "\<lparr>comments = map comment_of_item (take 2 sample_items),
           next_page_token = Some ''pp'', comment_count = 2,
           requests = [CommentThreadsList ''dQw4w9WgXcQ'' None 5]\<rparr>"
  have reach: "after_pages 1 (flaky_server 2 sample_items) ''dQw4w9WgXcQ'' 5 initial_state =
     Some ?st"
    by (simp add: initial_state_def flaky_server_def paged_server_def token_offset_def
        sample_items_def falsy_token_def Let_def)
  have live: "comment_count ?st < 5" by simp
  have fail: "flaky_server 2 sample_items ''dQw4w9WgXcQ'' (next_page_token ?st)
                (min 100 (5 - comment_count ?st)) = Inl HttpError"
    by (simp add: flaky_server_def)
  from get_comments_failure_empty [of 1 "flaky_server 2 sample_items" "''dQw4w9WgXcQ''" 5 ?st
      HttpError, THEN conjunct1, rule_format, OF reach live fail]
  have run: "get_comments (flaky_server 2 sample_items) ''dQw4w9WgXcQ'' 5 =
     Some ([], [CommentThreadsList ''dQw4w9WgXcQ'' None 5,
                CommentThreadsList ''dQw4w9WgXcQ'' (Some ''pp'') 3])"
    by simp
  have reach0: "after_pages 0 failing_server ''dQw4w9WgXcQ'' 5 initial_state = Some initial_state"
    by simp
  have live0: "comment_count initial_state < 5" by (simp add: initial_state_def)
  have fail0: "failing_server ''dQw4w9WgXcQ'' (next_page_token initial_state)
                 (min 100 (5 - comment_count initial_state)) = Inl HttpError"
    by (simp add: failing_server_def)
  from get_comments_failure_empty [of 0 failing_server "''dQw4w9WgXcQ''" 5 initial_state
      HttpError, THEN conjunct1, rule_format, OF reach0 live0 fail0]
  have run0: "get_comments failing_server ''dQw4w9WgXcQ'' 5 =
     Some ([], [CommentThreadsList ''dQw4w9WgXcQ'' None 5])"
    by (simp add: initial_state_def)
  from reach fail run reach0 fail0 run0 show ?thesis by (simp add: initial_state_def)
qed

text \<open>
  C1, as the claim states it, fails: the first page is retrieved (two comments and a
  continuation token), the request for the second page fails, and \<open>get_comments\<close>
  returns the empty sequence, not the two comments of the first page.
\<close>

theorem get_comments_partial_counterexample:
  "flaky_server 2 sample_items ''dQw4w9WgXcQ'' None 5 =
     Inr \<lparr>items = take 2 sample_items, nextPageToken = Some ''pp''\<rparr> \<and>
   flaky_server 2 sample_items ''dQw4w9WgXcQ'' (Some ''pp'') 3 = Inl HttpError \<and>
   get_comments (flaky_server 2 sample_items) ''dQw4w9WgXcQ'' 5 =
     Some ([], [CommentThreadsList ''dQw4w9WgXcQ'' None 5,
                CommentThreadsList ''dQw4w9WgXcQ'' (Some ''pp'') 3]) \<and>
   map comment_of_item (take 2 sample_items) \<noteq> []"
  by (simp add: get_comments_def get_comments_loop.simps initial_state_def flaky_server_def
      paged_server_def token_offset_def sample_items_def falsy_token_def Let_def)

section \<open>Properties of the Video Resolver\<close>

lemma id_group_iff: "id_group (drop k s) = Some g \<longleftrightarrow> token_after s k g"
  by (auto simp: id_group_def token_after_def)

lemma token_at_0:
  "token_at s 0 g \<longleftrightarrow>
     (take 2 s = ''v='' \<and> id_group (drop 2 s) = Some g) \<or>
     (take 1 s = ''/'' \<and> id_group (drop 1 s) = Some g)"
  unfolding token_at_def id_group_iff by (simp add: numeral_2_eq_2)

lemma markers_exclusive: "take 2 s = ''v='' \<Longrightarrow> take 1 s \<noteq> ''/''"
  by (cases s) auto

lemma match_here_Some_iff: "match_here s = Some g \<longleftrightarrow> token_at s 0 g"
  using markers_exclusive[of s]
  by (auto simp: match_here_def token_at_0 split: option.splits if_splits)

lemma match_here_None_iff: "match_here s = None \<longleftrightarrow> (\<forall>g. \<not> token_at s 0 g)"
proof -
  have "match_here s = None \<longleftrightarrow> (\<forall>g. match_here s \<noteq> Some g)" by auto
  then show ?thesis by (simp add: match_here_Some_iff)
qed

lemma token_at_Suc: "token_at (c # cs) (Suc i) v \<longleftrightarrow> token_at cs i v"
  by (simp add: token_at_def token_after_def)

lemma token_at_unique: "token_at s i v \<Longrightarrow> token_at s i w \<Longrightarrow> v = w"
proof -
  assume a: "token_at s i v" and b: "token_at s i w"
  have "take 2 (drop i s) = ''v='' \<Longrightarrow> take 1 (drop i s) \<noteq> ''/''"
    by (rule markers_exclusive)
  with a b show ?thesis by (auto simp: token_at_def token_after_def)
qed

lemma token_at_Nil: "\<not> token_at [] i v"
  by (simp add: token_at_def token_after_def)

lemma search_Some_iff:
  "search url = Some v \<longleftrightarrow> (\<exists>i. token_at url i v \<and> (\<forall>j<i. \<forall>w. \<not> token_at url j w))"
proof (induction url)
  case Nil
  show ?case by (simp add: token_at_Nil)
next
  case (Cons c cs)
  show ?case
  proof (cases "match_here (c # cs)")
    case (Some g)
    then have t0: "token_at (c # cs) 0 g" by (simp add: match_here_Some_iff)
    show ?thesis
    proof
      assume "search (c # cs) = Some v"
      with Some have "v = g" by simp
      with t0 have "token_at (c # cs) 0 v \<and> (\<forall>j<0. \<forall>w. \<not> token_at (c # cs) j w)" by simp
      then show "\<exists>i. token_at (c # cs) i v \<and> (\<forall>j<i. \<forall>w. \<not> token_at (c # cs) j w)" by blast
    next
      assume "\<exists>i. token_at (c # cs) i v \<and> (\<forall>j<i. \<forall>w. \<not> token_at (c # cs) j w)"
      then obtain i where i: "token_at (c # cs) i v" "\<forall>j<i. \<forall>w. \<not> token_at (c # cs) j w"
        by blast
      have "i = 0"
      proof (rule ccontr)
        assume "i \<noteq> 0"
        then have "0 < i" by simp
        with i(2) t0 show False by blast
      qed
      with i(1) t0 have "v = g" by (auto dest: token_at_unique)
      with Some show "search (c # cs) = Some v" by simp
    qed
  next
    case None
    then have n0: "\<forall>g. \<not> token_at (c # cs) 0 g" by (simp add: match_here_None_iff)
    from None have s: "search (c # cs) = search cs" by simp
    show ?thesis
    proof
      assume "search (c # cs) = Some v"
      with s Cons.IH obtain i where i: "token_at cs i v" "\<forall>j<i. \<forall>w. \<not> token_at cs j w"
        by auto
      have "\<forall>j<Suc i. \<forall>w. \<not> token_at (c # cs) j w"
      proof (intro allI impI)
        fix j w assume "j < Suc i"
        then show "\<not> token_at (c # cs) j w"
          using n0 i(2) by (cases j) (auto simp: token_at_Suc)
      qed
      with i(1) have "token_at (c # cs) (Suc i) v \<and> (\<forall>j<Suc i. \<forall>w. \<not> token_at (c # cs) j w)"
        by (simp add: token_at_Suc)
      then show "\<exists>i. token_at (c # cs) i v \<and> (\<forall>j<i. \<forall>w. \<not> token_at (c # cs) j w)" by blast
    next
      assume "\<exists>i. token_at (c # cs) i v \<and> (\<forall>j<i. \<forall>w. \<not> token_at (c # cs) j w)"
      then obtain i where i: "token_at (c # cs) i v" "\<forall>j<i. \<forall>w. \<not> token_at (c # cs) j w"
        by blast
      from i(1) n0 obtain i' where i': "i = Suc i'" by (cases i) auto
      with i(1) have a: "token_at cs i' v" by (simp add: token_at_Suc)
      have "\<forall>j<i'. \<forall>w. \<not> token_at cs j w"
      proof (intro allI impI)
        fix j w assume "j < i'"
        then have "Suc j < i" using i' by simp
        with i(2) have "\<not> token_at (c # cs) (Suc j) w" by blast
        then show "\<not> token_at cs j w" by (simp add: token_at_Suc)
      qed
      with a Cons.IH have "search cs = Some v" by blast
      with s show "search (c # cs) = Some v" by simp
    qed
  qed
qed

lemma search_None_iff: "search url = None \<longleftrightarrow> (\<forall>i w. \<not> token_at url i w)"
proof (induction url)
  case Nil
  show ?case by (simp add: token_at_Nil)
next
  case (Cons c cs)
  show ?case
  proof (cases "match_here (c # cs)")
    case (Some g)
    then have "token_at (c # cs) 0 g" by (simp add: match_here_Some_iff)
    with Some show ?thesis by auto
  next
    case None
    then have n0: "\<forall>g. \<not> token_at (c # cs) 0 g" by (simp add: match_here_None_iff)
    have "(\<forall>i w. \<not> token_at (c # cs) i w) \<longleftrightarrow> (\<forall>i w. \<not> token_at cs i w)"
    proof
      assume a: "\<forall>i w. \<not> token_at (c # cs) i w"
      show "\<forall>i w. \<not> token_at cs i w"
      proof (intro allI)
        fix i w
        from a have "\<not> token_at (c # cs) (Suc i) w" by blast
        then show "\<not> token_at cs i w" by (simp add: token_at_Suc)
      qed
    next
      assume a: "\<forall>i w. \<not> token_at cs i w"
      show "\<forall>i w. \<not> token_at (c # cs) i w"
      proof (intro allI)
        fix i w
        show "\<not> token_at (c # cs) i w" using n0 a by (cases i) (auto simp: token_at_Suc)
      qed
    qed
    with None Cons.IH show ?thesis by simp
  qed
qed

lemma token_at_length: "token_at url i v \<Longrightarrow> length v = 11"
  by (auto simp: token_at_def token_after_def)

lemma extract_video_id_length: "extract_video_id url = Some v \<Longrightarrow> length v = 11"
  by (auto simp: extract_video_id_def search_Some_iff dest: token_at_length)

text \<open>
  C7, as the code has it. \<open>extract_video_id\<close> returns the 11 id characters that follow
  the leftmost marker (\<open>v=\<close> or \<open>/\<close>) that is immediately followed by at least 11 id
  characters, whether or not the run of id characters ends after them, and \<open>None\<close>
  exactly when no marker is followed by 11 id characters.
\<close>

theorem extract_video_id_leftmost:
  "(extract_video_id url = Some v \<longleftrightarrow>
      (\<exists>i. token_at url i v \<and> (\<forall>j<i. \<forall>w. \<not> token_at url j w))) \<and>
   (extract_video_id url = None \<longleftrightarrow> (\<forall>i w. \<not> token_at url i w))"
  by (simp add: extract_video_id_def search_Some_iff search_None_iff)

theorem extract_video_id_leftmost_witness:
  "extract_video_id ''https://youtu.be/dQw4w9WgXcQ?t=10'' = Some ''dQw4w9WgXcQ'' \<and>
   (\<exists>i. token_at ''https://youtu.be/dQw4w9WgXcQ?t=10'' i ''dQw4w9WgXcQ'')"
proof -
  have e: "extract_video_id ''https://youtu.be/dQw4w9WgXcQ?t=10'' = Some ''dQw4w9WgXcQ''"
    by code_simp
  with extract_video_id_leftmost [of "''https://youtu.be/dQw4w9WgXcQ?t=10''" "''dQw4w9WgXcQ''"]
  show ?thesis by blast
qed

text \<open>
  C7, as the claim states it, fails. In the first URL no run of exactly 11 id characters
  follows a marker (the channel id is a run of 24), yet the result is not \<open>None\<close>: it is
  the first 11 characters of the channel id. The second URL contains the token
  \<open>dQw4w9WgXcQ\<close> after \<open>v=\<close>, yet the result is the head of the path segment
  \<open>attribution_link\<close>.
\<close>

theorem extract_video_id_exact_run_counterexample:
  "extract_video_id ''https://www.youtube.com/channel/UCuAXFkgsw1L7xaCfnd5JJOw'' =
     Some ''UCuAXFkgsw1'' \<and>
   take 24 (drop 32 ''https://www.youtube.com/channel/UCuAXFkgsw1L7xaCfnd5JJOw'') =
     ''UCuAXFkgsw1L7xaCfnd5JJOw'' \<and>
   list_all is_id_char ''UCuAXFkgsw1L7xaCfnd5JJOw'' \<and>
   extract_video_id ''https://www.youtube.com/attribution_link?u=/watch?v=dQw4w9WgXcQ'' =
     Some ''attribution'' \<and>
   token_at ''https://www.youtube.com/attribution_link?u=/watch?v=dQw4w9WgXcQ'' 50
     ''dQw4w9WgXcQ''"
  by code_simp


section \<open>Properties of the Sentiment Annotator\<close>

lemma annotate_Inr:
  "annotate tb c = Inr c' \<longleftrightarrow>
     (\<exists>t. comment_text c = Some t \<and>
          c' = c\<lparr>polarity := Some (fst (tb t)), subjectivity := Some (snd (tb t)),
                 sentiment := Some (label_of (fst (tb t)))\<rparr>)"
  by (cases "comment_text c") (auto simp: annotate_def label_of_def Let_def split: prod.splits)

lemma annotate_Inl: "annotate tb c = Inl e \<longleftrightarrow> comment_text c = None \<and> e = KeyError"
  by (cases "comment_text c") (auto simp: annotate_def Let_def split: prod.splits)

lemma analyze_sentiment_Inr:
  "analyze_sentiment tb cs = Inr out \<Longrightarrow> list_all2 (\<lambda>c c'. annotate tb c = Inr c') cs out"
proof (induction cs arbitrary: out)
  case Nil
  then show ?case by simp
next
  case (Cons c cs)
  from Cons.prems obtain c' out' where
    "annotate tb c = Inr c'" "analyze_sentiment tb cs = Inr out'" "out = c' # out'"
    by (auto split: sum.splits)
  with Cons.IH show ?case by simp
qed

lemma analyze_sentiment_total:
  "list_all (\<lambda>c. comment_text c \<noteq> None) cs \<Longrightarrow> \<exists>out. analyze_sentiment tb cs = Inr out"
proof (induction cs)
  case Nil
  show ?case by simp
next
  case (Cons c cs)
  then obtain t out where "comment_text c = Some t" "analyze_sentiment tb cs = Inr out" by auto
  moreover then obtain c' where "annotate tb c = Inr c'" by (auto simp: annotate_Inr)
  ultimately show ?case by simp
qed

lemma label_of_cases:
  "(label_of p = ''positive'' \<longleftrightarrow> p > float_0_1) \<and>
   (label_of p = ''negative'' \<longleftrightarrow> p < - float_0_1) \<and>
   (label_of p = ''neutral'' \<longleftrightarrow> - float_0_1 \<le> p \<and> p \<le> float_0_1)"
proof -
  have "0 < float_0_1" by (simp add: float_0_1_def)
  then show ?thesis by (auto simp: label_of_def)
qed

text \<open>
  C3. In whatever \<open>analyze_sentiment\<close> returns, the label of every comment is decided by
  its polarity alone: \<open>positive\<close> exactly when the polarity exceeds \<open>0.1\<close>, \<open>negative\<close>
  exactly when it is below \<open>-0.1\<close>, \<open>neutral\<close> exactly in between, both thresholds
  included.
\<close>

theorem sentiment_label_by_polarity:
  assumes "analyze_sentiment TextBlob cs = Inr out" and "c \<in> set out"
  shows "\<exists>p. polarity c = Some p \<and>
           (sentiment c = Some ''positive'' \<longleftrightarrow> p > float_0_1) \<and>
           (sentiment c = Some ''negative'' \<longleftrightarrow> p < - float_0_1) \<and>
           (sentiment c = Some ''neutral'' \<longleftrightarrow> - float_0_1 \<le> p \<and> p \<le> float_0_1)"
proof -
  from assms(1) have "list_all2 (\<lambda>c c'. annotate TextBlob c = Inr c') cs out"
    by (rule analyze_sentiment_Inr)
  with assms(2) obtain c0 where "annotate TextBlob c0 = Inr c"
    by (auto simp: list_all2_conv_all_nth in_set_conv_nth)
  then obtain t where
    c: "c = c0\<lparr>polarity := Some (fst (TextBlob t)), subjectivity := Some (snd (TextBlob t)),
                 sentiment := Some (label_of (fst (TextBlob t)))\<rparr>"
    by (auto simp: annotate_Inr)
  show ?thesis using label_of_cases[of "fst (TextBlob t)"] by (simp add: c)
qed

theorem sentiment_label_by_polarity_witness:
  "analyze_sentiment sample_scorer threshold_comments =
     Inr [empty_comment\<lparr>comment_text := Some ''on the upper threshold'',
            polarity := Some float_0_1, subjectivity := Some (1 / 4),
            sentiment := Some ''neutral''\<rparr>,
          empty_comment\<lparr>comment_text := Some ''on the lower threshold'',
            polarity := Some (- float_0_1), subjectivity := Some (1 / 4),
            sentiment := Some ''neutral''\<rparr>] \<and>
   (\<exists>p. polarity (empty_comment\<lparr>comment_text := Some ''on the upper threshold'',
            polarity := Some float_0_1, subjectivity := Some (1 / 4),
            sentiment := Some ''neutral''\<rparr>) = Some p \<and>
        (sentiment (empty_comment\<lparr>comment_text := Some ''on the upper threshold'',
            polarity := Some float_0_1, subjectivity := Some (1 / 4),
            sentiment := Some ''neutral''\<rparr>) = Some ''neutral'') =
        (- float_0_1 \<le> p \<and> p \<le> float_0_1))"
proof -
  let ?u = "empty_comment\<lparr>comment_text := Some ''on the upper threshold'',
            polarity := Some float_0_1, subjectivity := Some (1 / 4),
            sentiment := Some ''neutral''\<rparr>"
  let ?l = "empty_comment\<lparr>comment_text := Some ''on the lower threshold'',
            polarity := Some (- float_0_1), subjectivity := Some (1 / 4),
            sentiment := Some ''neutral''\<rparr>"
  have run: "analyze_sentiment sample_scorer threshold_comments = Inr [?u, ?l]"
    by (simp add: threshold_comments_def sample_scorer_def annotate_def empty_comment_def
        textless_comment_def Let_def float_0_1_def)
  have mem: "?u \<in> set [?u, ?l]" by simp
  from sentiment_label_by_polarity [OF run mem] run show ?thesis by blast
qed

text \<open>
  C9. \<open>analyze_sentiment\<close> returns on every sequence of comments that have a text, and
  what it returns has the length and the order of its input: the element at each position
  is the input comment at that position with its five original fields unchanged and with
  polarity, subjectivity and sentiment all present.
\<close>

theorem analyze_sentiment_frame:
  "(list_all (\<lambda>c. comment_text c \<noteq> None) cs \<longrightarrow> (\<exists>out. analyze_sentiment TextBlob cs = Inr out)) \<and>
   (analyze_sentiment TextBlob cs = Inr out \<longrightarrow>
      length out = length cs \<and>
      (\<forall>i<length cs.
         author (out ! i) = author (cs ! i) \<and>
         comment_text (out ! i) = comment_text (cs ! i) \<and>
         published_at (out ! i) = published_at (cs ! i) \<and>
         like_count (out ! i) = like_count (cs ! i) \<and>
         reply_count (out ! i) = reply_count (cs ! i) \<and>
         polarity (out ! i) \<noteq> None \<and> subjectivity (out ! i) \<noteq> None \<and>
         sentiment (out ! i) \<noteq> None))"
proof (intro conjI impI)
  assume "list_all (\<lambda>c. comment_text c \<noteq> None) cs"
  then show "\<exists>out. analyze_sentiment TextBlob cs = Inr out" by (rule analyze_sentiment_total)
next
  assume "analyze_sentiment TextBlob cs = Inr out"
  then have l2: "list_all2 (\<lambda>c c'. annotate TextBlob c = Inr c') cs out"
    by (rule analyze_sentiment_Inr)
  then show "length out = length cs" by (simp add: list_all2_lengthD)
  show "\<forall>i<length cs.
         author (out ! i) = author (cs ! i) \<and>
         comment_text (out ! i) = comment_text (cs ! i) \<and>
         published_at (out ! i) = published_at (cs ! i) \<and>
         like_count (out ! i) = like_count (cs ! i) \<and>
         reply_count (out ! i) = reply_count (cs ! i) \<and>
         polarity (out ! i) \<noteq> None \<and> subjectivity (out ! i) \<noteq> None \<and>
         sentiment (out ! i) \<noteq> None"
  proof (intro allI impI)
    fix i assume "i < length cs"
    with l2 have "annotate TextBlob (cs ! i) = Inr (out ! i)" by (simp add: list_all2_conv_all_nth)
    then obtain t where "out ! i = (cs ! i)\<lparr>polarity := Some (fst (TextBlob t)),
        subjectivity := Some (snd (TextBlob t)), sentiment := Some (label_of (fst (TextBlob t)))\<rparr>"
      by (auto simp: annotate_Inr)
    then show "author (out ! i) = author (cs ! i) \<and>
         comment_text (out ! i) = comment_text (cs ! i) \<and>
         published_at (out ! i) = published_at (cs ! i) \<and>
         like_count (out ! i) = like_count (cs ! i) \<and>
         reply_count (out ! i) = reply_count (cs ! i) \<and>
         polarity (out ! i) \<noteq> None \<and> subjectivity (out ! i) \<noteq> None \<and>
         sentiment (out ! i) \<noteq> None" by simp
  qed
qed


theorem analyze_sentiment_frame_witness:
  "list_all (\<lambda>c. comment_text c \<noteq> None) sample_comments \<and>
   (\<exists>out. analyze_sentiment sample_scorer sample_comments = Inr out) \<and>
   analyze_sentiment sample_scorer [empty_comment] =
     Inr [empty_comment\<lparr>polarity := Some 0, subjectivity := Some 0,
                          sentiment := Some ''neutral''\<rparr>] \<and>
   length [empty_comment\<lparr>polarity := Some 0, subjectivity := Some 0,
                          sentiment := Some ''neutral''\<rparr>] = length [empty_comment]"
proof -
  have texts: "list_all (\<lambda>c. comment_text c \<noteq> None) sample_comments"
    by (simp add: sample_comments_def sample_items_def comment_of_item_def)
  have run: "analyze_sentiment sample_scorer [empty_comment] =
     Inr [empty_comment\<lparr>polarity := Some 0, subjectivity := Some 0,
                          sentiment := Some ''neutral''\<rparr>]"
    by (simp add: sample_scorer_def annotate_def empty_comment_def textless_comment_def
        Let_def float_0_1_def)
  from analyze_sentiment_frame [of sample_comments sample_scorer]
    analyze_sentiment_frame [of "[empty_comment]" sample_scorer
      "[empty_comment\<lparr>polarity := Some 0, subjectivity := Some 0,
                          sentiment := Some ''neutral''\<rparr>]"]
    texts run
  show ?thesis by blast
qed

section \<open>Properties of the Lexical Aggregator\<close>






lemma findall_Inr:
  "min_length < MAXREPEAT \<Longrightarrow> \<exists>words. findall min_length s = Inr words"
  by (simp add: findall_def)




lemma all_words_loop_total:
  "m < MAXREPEAT \<Longrightarrow> list_all (\<lambda>c. comment_text c \<noteq> None) cs \<Longrightarrow>
     \<exists>ws. all_words_loop m sw acc cs = Inr ws"
proof (induction cs arbitrary: acc)
  case Nil
  show ?case by simp
next
  case (Cons c cs)
  from Cons.prems(2) obtain t where t: "comment_text c = Some t" by auto
  from findall_Inr[OF Cons.prems(1), of "lower t"] obtain words where
    words: "findall m (lower t) = Inr words" by blast
  from Cons.prems(2) have "list_all (\<lambda>c. comment_text c \<noteq> None) cs" by simp
  from Cons.IH[OF Cons.prems(1) this] t words show ?case by (simp add: Let_def)
qed




subsection \<open>Counter\<close>












subsection \<open>most\_common\<close>










section \<open>Properties of the Report Compiler\<close>

subsection \<open>Every comment the paginator returns has a text\<close>

lemma loop_texts:
  assumes "get_comments_loop api vid N st = Some res"
  shows "list_all (\<lambda>c. comment_text c \<noteq> None) (comments st) \<longrightarrow>
         (\<forall>cs reqs. res = (Inr cs, reqs) \<longrightarrow> list_all (\<lambda>c. comment_text c \<noteq> None) cs)"
  using assms
proof (induction rule: get_comments_loop.raw_induct[rotated 1, consumes 1, case_names step])
  case (step loop api vid N st res)
  show ?case
  proof
    assume inv: "list_all (\<lambda>c. comment_text c \<noteq> None) (comments st)"
    show "\<forall>cs reqs. res = (Inr cs, reqs) \<longrightarrow> list_all (\<lambda>c. comment_text c \<noteq> None) cs"
    proof (cases "comment_count st < N")
      case False
      with step(2) inv show ?thesis by auto
    next
      case True
      let ?k = "min 100 (N - comment_count st)"
      show ?thesis
      proof (cases "api vid (next_page_token st) ?k")
        case (Inl e)
        with True step(2) show ?thesis by (auto simp: Let_def)
      next
        case (Inr page)
        let ?cs = "comments st @ map comment_of_item (items page)"
        let ?n = "comment_count st + int (length (items page))"
        have "list_all (\<lambda>c. comment_text c \<noteq> None) (map comment_of_item (items page))"
          by (simp add: list_all_iff comment_of_item_def)
        with inv have inv': "list_all (\<lambda>c. comment_text c \<noteq> None) ?cs"
          by simp
        show ?thesis
        proof (cases "falsy_token (nextPageToken page) \<or> N \<le> ?n")
          case stop: True
          with True Inr step(2) have "fst res = Inr ?cs"
            by (auto simp: Let_def append_items_eq)
          with inv' show ?thesis by (metis fst_conv sum.inject(2))
        next
          case False
          with True Inr step(2) have
            rec: "loop api vid N \<lparr>comments = ?cs, next_page_token = nextPageToken page,
                   comment_count = ?n,
                   requests = requests st @ [CommentThreadsList vid (next_page_token st) ?k]\<rparr> = Some res"
            by (auto simp: Let_def append_items_eq)
          from step(1)[OF rec] have
            "list_all (\<lambda>c. comment_text c \<noteq> None) ?cs \<longrightarrow>
             (\<forall>cs reqs. res = (Inr cs, reqs) \<longrightarrow> list_all (\<lambda>c. comment_text c \<noteq> None) cs)"
            by (simp only: paginator_state.simps)
          with inv' show ?thesis by blast
        qed
      qed
    qed
  qed
qed

lemma get_comments_texts:
  assumes "get_comments api vid N = Some (cs, reqs)"
  shows "list_all (\<lambda>c. comment_text c \<noteq> None) cs"
proof (cases "get_comments_loop api vid N initial_state")
  case None
  with assms show ?thesis by (simp add: get_comments_def)
next
  case (Some r)
  obtain out rq where r: "r = (out, rq)" by (cases r)
  show ?thesis
  proof (cases out)
    case (Inl e)
    with Some r assms show ?thesis by (simp add: get_comments_def)
  next
    case (Inr cs')
    with Some r assms have "cs' = cs" by (simp add: get_comments_def)
    with loop_texts[OF Some] r Inr show ?thesis by (simp add: initial_state_def)
  qed
qed

lemma analyze_sentiment_keeps_text:
  assumes "analyze_sentiment tb cs = Inr out"
  shows "map comment_text out = map comment_text cs"
proof -
  from assms have l2: "list_all2 (\<lambda>c c'. annotate tb c = Inr c') cs out"
    by (rule analyze_sentiment_Inr)
  have "list_all2 (\<lambda>c c'. comment_text c' = comment_text c) cs out"
    by (rule list_all2_mono[OF l2]) (auto simp: annotate_Inr)
  then show ?thesis
    by (induction cs out rule: list_all2_induct) simp_all
qed

lemma extract_common_words_total:
  assumes "n < MAXREPEAT" and "list_all (\<lambda>c. comment_text c \<noteq> None) cs"
  shows "\<exists>words. extract_common_words cs n m sw = Inr words"
proof -
  from all_words_loop_total[OF assms, of "stopwords_or_default sw" "[]"]
  obtain ws where "all_words_loop n (stopwords_or_default sw) [] cs = Inr ws" by blast
  then show ?thesis by (simp add: extract_common_words_def)
qed

lemma texts_present_map:
  "list_all (\<lambda>c. comment_text c \<noteq> None) cs \<longleftrightarrow> list_all (\<lambda>t. t \<noteq> None) (map comment_text cs)"
  by (simp add: list_all_iff)

lemma pipeline_total:
  assumes "get_comments api vid N = Some (cs, reqs)"
  shows "\<exists>analyzed words. analyze_sentiment tb cs = Inr analyzed \<and>
           extract_common_words analyzed 4 100 None = Inr words"
proof -
  have t: "list_all (\<lambda>c. comment_text c \<noteq> None) cs" using assms by (rule get_comments_texts)
  from analyze_sentiment_total[OF t] obtain analyzed where a: "analyze_sentiment tb cs = Inr analyzed"
    by blast
  from t have "list_all (\<lambda>t. t \<noteq> None) (map comment_text cs)"
    by (simp only: texts_present_map)
  then have "list_all (\<lambda>t. t \<noteq> None) (map comment_text analyzed)"
    by (simp only: analyze_sentiment_keeps_text[OF a])
  then have "list_all (\<lambda>c. comment_text c \<noteq> None) analyzed"
    by (simp only: texts_present_map)
  moreover have "(4::int) < MAXREPEAT" by (simp add: MAXREPEAT_def)
  ultimately have "\<exists>words. extract_common_words analyzed 4 100 None = Inr words"
    by (rule extract_common_words_total[rotated])
  with a show ?thesis by blast
qed

lemma gr_invalid:
  "extract_video_id url = None \<Longrightarrow>
   generate_report e url N = Some (Error ''Invalid YouTube URL'', [])"
  by (simp add: generate_report_def)

lemma gr_not_found:
  assumes "extract_video_id url = Some v" and "fst (get_video_details (videos_list e) v) = None"
  shows "generate_report e url N = Some (Error ''Could not retrieve video details'', [VideosList v])"
proof -
  from assms(1) have "v \<noteq> []" by (auto dest: extract_video_id_length)
  moreover have "snd (get_video_details (videos_list e) v) = [VideosList v]"
    by (simp add: get_video_details_def)
  ultimately show ?thesis using assms
    by (cases "get_video_details (videos_list e) v") (simp add: generate_report_def)
qed

lemma gr_diverges:
  assumes "extract_video_id url = Some v" and "fst (get_video_details (videos_list e) v) = Some d"
    and "get_comments (comment_threads_list e) v N = None"
  shows "generate_report e url N = None"
proof -
  from assms(1) have "v \<noteq> []" by (auto dest: extract_video_id_length)
  then show ?thesis using assms
    by (cases "get_video_details (videos_list e) v") (simp add: generate_report_def)
qed

lemma gr_no_comments:
  assumes "extract_video_id url = Some v" and "fst (get_video_details (videos_list e) v) = Some d"
    and "get_comments (comment_threads_list e) v N = Some ([], rq)"
  shows "generate_report e url N =
           Some (Error ''No comments found or comments are disabled'', VideosList v # rq)"
proof -
  from assms(1) have "v \<noteq> []" by (auto dest: extract_video_id_length)
  moreover have "snd (get_video_details (videos_list e) v) = [VideosList v]"
    by (simp add: get_video_details_def)
  ultimately show ?thesis using assms
    by (cases "get_video_details (videos_list e) v") (simp add: generate_report_def)
qed

lemma gr_report:
  assumes "extract_video_id url = Some v" and "fst (get_video_details (videos_list e) v) = Some d"
    and "get_comments (comment_threads_list e) v N = Some (cs, rq)" and "cs \<noteq> []"
  shows "\<exists>analyzed words.
           analyze_sentiment (text_blob e) cs = Inr analyzed \<and>
           extract_common_words analyzed 4 100 None = Inr words \<and>
           generate_report e url N =
             Some (Report (results e d analyzed words), VideosList v # rq)"
proof -
  from assms(1) have "v \<noteq> []" by (auto dest: extract_video_id_length)
  moreover have "snd (get_video_details (videos_list e) v) = [VideosList v]"
    by (simp add: get_video_details_def)
  moreover from pipeline_total[OF assms(3), of "text_blob e"] obtain analyzed words where
    "analyze_sentiment (text_blob e) cs = Inr analyzed"
    "extract_common_words analyzed 4 100 None = Inr words" by blast
  ultimately show ?thesis using assms
    by (cases "get_video_details (videos_list e) v")
      (simp add: generate_report_def results_def)
qed


text \<open>
  C2. A run of \<open>generate_report\<close> fails to return only when the pagination never ends.
  When it returns, the result is a report or one of three error results, never an
  exception, and which one is decided in this order: \<open>Invalid YouTube URL\<close> exactly
  when no video id is found in the URL, and then no request is issued;
  \<open>Could not retrieve video details\<close> exactly when an id is found and the metadata
  fetch gives nothing, and then the metadata request is the only one issued;
  \<open>No comments found or comments are disabled\<close> exactly when the details were fetched
  and the paginator returned the empty sequence; a report exactly when the details were
  fetched and the paginator returned comments.
\<close>

theorem generate_report_outcomes:
  "(generate_report e url max_comments = None \<longleftrightarrow>
      (\<exists>v d. extract_video_id url = Some v \<and>
             fst (get_video_details (videos_list e) v) = Some d \<and>
             get_comments (comment_threads_list e) v max_comments = None)) \<and>
   (generate_report e url max_comments = Some (res, reqs) \<longrightarrow>
      (res = Error ''Invalid YouTube URL'' \<or>
       res = Error ''Could not retrieve video details'' \<or>
       res = Error ''No comments found or comments are disabled'' \<or>
       (\<exists>r. res = Report r)) \<and>
      (res = Error ''Invalid YouTube URL'' \<longleftrightarrow> extract_video_id url = None) \<and>
      (res = Error ''Could not retrieve video details'' \<longleftrightarrow>
         (\<exists>v. extract_video_id url = Some v \<and>
              fst (get_video_details (videos_list e) v) = None)) \<and>
      (res = Error ''No comments found or comments are disabled'' \<longleftrightarrow>
         (\<exists>v d rq. extract_video_id url = Some v \<and>
                 fst (get_video_details (videos_list e) v) = Some d \<and>
                 get_comments (comment_threads_list e) v max_comments = Some ([], rq))) \<and>
      ((\<exists>r. res = Report r) \<longleftrightarrow>
         (\<exists>v d cs rq. extract_video_id url = Some v \<and>
                 fst (get_video_details (videos_list e) v) = Some d \<and>
                 get_comments (comment_threads_list e) v max_comments = Some (cs, rq) \<and>
                 cs \<noteq> [])) \<and>
      (res = Error ''Invalid YouTube URL'' \<longrightarrow> reqs = []) \<and>
      (res = Error ''Could not retrieve video details'' \<longrightarrow>
         (\<exists>v. reqs = [VideosList v])) \<and>
      (res = Error ''No comments found or comments are disabled'' \<longrightarrow>
         (\<exists>v rq. reqs = VideosList v # rq \<and>
                 fst (get_video_details (videos_list e) v) \<noteq> None)))"
proof (cases "extract_video_id url")
  case None
  from gr_invalid[OF None, of e max_comments] None show ?thesis by auto
next
  case (Some v)
  show ?thesis
  proof (cases "fst (get_video_details (videos_list e) v)")
    case None
    from gr_not_found[OF Some None, of max_comments] Some None show ?thesis by auto
  next
    case d: (Some d)
    show ?thesis
    proof (cases "get_comments (comment_threads_list e) v max_comments")
      case None
      from gr_diverges[OF Some d None] Some d None show ?thesis by auto
    next
      case run: (Some p)
      obtain cs rq where p: "p = (cs, rq)" by (cases p)
      show ?thesis
      proof (cases "cs = []")
        case True
        from gr_no_comments[OF Some d run[unfolded p True]] Some d run p True
        show ?thesis by auto
      next
        case False
        from gr_report[OF Some d run[unfolded p] False] obtain analyzed words where
          "generate_report e url max_comments =
             Some (Report (results e d analyzed words), VideosList v # rq)" by blast
        with Some d run p False show ?thesis by auto
      qed
    qed
  qed
qed


theorem generate_report_outcomes_witness:
  "generate_report (sample_env stable_descending []) ''https://youtu.be/dQw4w9WgXcQ'' 100 =
     Some (Error ''No comments found or comments are disabled'',
           [VideosList ''dQw4w9WgXcQ'', CommentThreadsList ''dQw4w9WgXcQ'' None 100]) \<and>
   (\<exists>v d rq. extract_video_id ''https://youtu.be/dQw4w9WgXcQ'' = Some v \<and>
        fst (get_video_details (videos_list (sample_env stable_descending [])) v) = Some d \<and>
        get_comments (comment_threads_list (sample_env stable_descending [])) v 100 =
          Some ([], rq))"
proof -
  have id: "extract_video_id ''https://youtu.be/dQw4w9WgXcQ'' = Some ''dQw4w9WgXcQ''"
    by code_simp
  have run: "generate_report (sample_env stable_descending [])
       ''https://youtu.be/dQw4w9WgXcQ'' 100 =
     Some (Error ''No comments found or comments are disabled'',
           [VideosList ''dQw4w9WgXcQ'', CommentThreadsList ''dQw4w9WgXcQ'' None 100])"
    by (simp add: generate_report_def id sample_env_def get_video_details_def
        sample_videos_def get_comments_def get_comments_loop.simps initial_state_def
        paged_server_def token_offset_def falsy_token_def Let_def)
  note outcomes = generate_report_outcomes [of "sample_env stable_descending []"
      "''https://youtu.be/dQw4w9WgXcQ''" 100
      "Error ''No comments found or comments are disabled''"
      "[VideosList ''dQw4w9WgXcQ'', CommentThreadsList ''dQw4w9WgXcQ'' None 100]"]
  note no_comments = outcomes [THEN conjunct2, THEN mp, OF run,
      THEN conjunct2, THEN conjunct2, THEN conjunct2, THEN conjunct1]
  from no_comments have
    "\<exists>v d rq. extract_video_id ''https://youtu.be/dQw4w9WgXcQ'' = Some v \<and>
        fst (get_video_details (videos_list (sample_env stable_descending [])) v) = Some d \<and>
        get_comments (comment_threads_list (sample_env stable_descending [])) v 100 =
          Some ([], rq)"
    by (simp only: simp_thms)
  with run show ?thesis by (rule conjI)
qed

subsection \<open>The top comments\<close>

lemma stable_descending_sorts: "sorts_by_likes_descending stable_descending"
  unfolding sorts_by_likes_descending_def stable_descending_def
proof (intro allI conjI)
  fix cs :: "comment list"
  show "mset (sort_key (\<lambda>c. - like_count c) cs) = mset cs" by simp
  have "sorted (map (\<lambda>c. - like_count c) (sort_key (\<lambda>c. - like_count c) cs))"
    by (rule sorted_sort_key)
  then show "sorted_wrt (\<lambda>a b. like_count b \<le> like_count a) (sort_key (\<lambda>c. - like_count c) cs)"
    by (simp add: sorted_map)
qed

lemma report_fields:
  assumes "generate_report e url N = Some (Report r, reqs)"
  shows "top_comments r = take 5 (sort_values e (all_comments r)) \<and> all_comments r \<noteq> []"
proof -
  have out: "generate_report e url N = Some (Report r, reqs) \<longrightarrow>
      (\<exists>v d cs rq. extract_video_id url = Some v \<and>
                 fst (get_video_details (videos_list e) v) = Some d \<and>
                 get_comments (comment_threads_list e) v N = Some (cs, rq) \<and> cs \<noteq> [])"
  proof (cases "extract_video_id url")
    case None
    from gr_invalid[OF None, of e N] show ?thesis by simp
  next
    case (Some v)
    show ?thesis
    proof (cases "fst (get_video_details (videos_list e) v)")
      case None
      from gr_not_found[OF Some None, of N] show ?thesis by simp
    next
      case d: (Some d)
      show ?thesis
      proof (cases "get_comments (comment_threads_list e) v N")
        case None
        from gr_diverges[OF Some d None] show ?thesis by simp
      next
        case run: (Some p)
        obtain cs rq where p: "p = (cs, rq)" by (cases p)
        show ?thesis
        proof (cases "cs = []")
          case True
          from gr_no_comments[OF Some d run[unfolded p True]] show ?thesis by simp
        next
          case False
          with Some d run p show ?thesis by blast
        qed
      qed
    qed
  qed
  with assms obtain v d cs rq where
    v: "extract_video_id url = Some v"
    and d: "fst (get_video_details (videos_list e) v) = Some d"
    and run: "get_comments (comment_threads_list e) v N = Some (cs, rq)" and ne: "cs \<noteq> []"
    by blast
  from gr_report[OF v d run ne] obtain analyzed words where
    a: "analyze_sentiment (text_blob e) cs = Inr analyzed"
    and g: "generate_report e url N = Some (Report (results e d analyzed words), VideosList v # rq)"
    by blast
  from analyze_sentiment_Inr[OF a] have "length analyzed = length cs"
    by (simp add: list_all2_lengthD)
  with ne have "analyzed \<noteq> []" by auto
  moreover from g assms have "r = results e d analyzed words" by simp
  ultimately show ?thesis by (simp add: results_def)
qed

text \<open>
  The top comments of a report are the first five rows of what the table sort returns
  (all of them when there are fewer). Whenever that sort orders by descending like
  count, they are comments of the report in descending order of like count, and no
  comment left out has more likes than one that is in.
\<close>

lemma top_comments_sorted:
  assumes "sorts_by_likes_descending (sort_values e)"
    and "generate_report e url max_comments = Some (Report r, reqs)"
  shows "top_comments r = take 5 (sort_values e (all_comments r)) \<and>
         length (top_comments r) = min 5 (length (all_comments r)) \<and>
         sorted_wrt (\<lambda>a b. like_count b \<le> like_count a) (top_comments r) \<and>
         mset (top_comments r) \<subseteq># mset (all_comments r) \<and>
         (\<forall>c \<in># mset (all_comments r) - mset (top_comments r).
            \<forall>t \<in> set (top_comments r). like_count c \<le> like_count t)"
proof -
  let ?s = "sort_values e (all_comments r)"
  from report_fields[OF assms(2)] have top: "top_comments r = take 5 ?s" by simp
  from assms(1) have m: "mset ?s = mset (all_comments r)"
    and s: "sorted_wrt (\<lambda>a b. like_count b \<le> like_count a) ?s"
    by (simp_all add: sorts_by_likes_descending_def)
  from m have len: "length ?s = length (all_comments r)" by (rule mset_eq_length)
  have split: "mset (take 5 ?s) + mset (drop 5 ?s) = mset (all_comments r)"
    using m by (metis append_take_drop_id mset_append)
  then have sub: "mset (take 5 ?s) \<subseteq># mset (all_comments r)"
    by (metis mset_subset_eq_add_left)
  from split have rest: "mset (all_comments r) - mset (take 5 ?s) = mset (drop 5 ?s)"
    by (metis add_diff_cancel_left')
  from s have "sorted_wrt (\<lambda>a b. like_count b \<le> like_count a) (take 5 ?s @ drop 5 ?s)" by simp
  then have cross: "\<forall>t\<in>set (take 5 ?s). \<forall>c\<in>set (drop 5 ?s). like_count c \<le> like_count t"
    unfolding sorted_wrt_append by blast
  have "\<forall>c \<in># mset (all_comments r) - mset (top_comments r).
            \<forall>t \<in> set (top_comments r). like_count c \<le> like_count t"
    unfolding top rest using cross by auto
  moreover have "length (top_comments r) = min 5 (length (all_comments r))"
    by (simp add: top len min.commute)
  moreover have "sorted_wrt (\<lambda>a b. like_count b \<le> like_count a) (top_comments r)"
    unfolding top using s by (rule sorted_wrt_take)
  ultimately show ?thesis using top sub by simp
qed

section \<open>Comments with an empty text, comments without a text\<close>





end
